theory Spec2Isabelle
  imports Complex_Main "HOL-Library.Multiset" "HOL-Library.Log_Nat"
begin

section \<open>Data model\<close>

text \<open>
  The dataclass \<^verbatim>\<open>Feature\<close> of \<^verbatim>\<open>sorting_algs.py\<close> has the fields
  \<^verbatim>\<open>text\<close>, \<^verbatim>\<open>x\<close> and \<^verbatim>\<open>y\<close>. The coordinates are Python integers, which are
  unbounded, hence \<^typ>\<open>int\<close>. The text is never inspected by the two algorithms.
\<close>

record Feature =
  "text" :: string
  x :: int
  y :: int

text \<open>
  A Python list holds references to objects, and \<^verbatim>\<open>sort_features_B\<close> tells Features
  apart by \<^verbatim>\<open>id(f)\<close>, not by their fields. A Feature object is therefore an address
  and the objects live in a store; a list of Features is a list of addresses, in which
  the same object may occur more than once.
\<close>

type_synonym ref = nat
type_synonym store = "ref \<Rightarrow> Feature"

text \<open>The two exceptions that the arithmetic of \<^verbatim>\<open>sort_features_B\<close> can raise.\<close>

datatype py_error = ZeroDivisionError | OverflowError

section \<open>The two sorting steps\<close>

text \<open>
  \<^verbatim>\<open>sorted(features, key=lambda f: f.y, reverse=True)\<close>. Python's sort is stable, also
  with \<^verbatim>\<open>reverse=True\<close>: Features with equal \<^verbatim>\<open>y\<close> keep their input order. That is the
  stable insertion sort \<^const>\<open>sort_key\<close> on the negated key.
\<close>

definition sorted_by_y_desc :: "store \<Rightarrow> ref list \<Rightarrow> ref list" where
  "sorted_by_y_desc h features = sort_key (\<lambda>f. - y (h f)) features"

text \<open>\<^verbatim>\<open>sorted(row, key=lambda f: f.x)\<close>, stable as well.\<close>

definition sorted_by_x :: "store \<Rightarrow> ref list \<Rightarrow> ref list" where
  "sorted_by_x h row = sort_key (\<lambda>f. x (h f)) row"

section \<open>\<^verbatim>\<open>sort_features_A\<close>\<close>

text \<open>
  The loop of lines 27 to 38 over \<^verbatim>\<open>features_sorted\<close>, with its three variables
  \<^verbatim>\<open>rows\<close>, \<^verbatim>\<open>current_row\<close> and \<^verbatim>\<open>current_y\<close> as arguments; it returns
  \<^verbatim>\<open>rows\<close> and \<^verbatim>\<open>current_row\<close> as they stand when the loop ends.
\<close>

fun rows_loop_A ::
  "store \<Rightarrow> int \<Rightarrow> ref list \<Rightarrow> ref list list \<Rightarrow> ref list \<Rightarrow> int option
    \<Rightarrow> ref list list \<times> ref list" where
  "rows_loop_A h tol [] rows current_row current_y = (rows, current_row)"
| "rows_loop_A h tol (f # fs) rows current_row current_y =
     (case current_y of
        None \<Rightarrow> rows_loop_A h tol fs rows (current_row @ [f]) (Some (y (h f)))
      | Some cy \<Rightarrow>
          if \<bar>y (h f) - cy\<bar> \<le> tol
          then rows_loop_A h tol fs rows (current_row @ [f]) (Some cy)
          else rows_loop_A h tol fs (rows @ [sorted_by_x h current_row]) [f] (Some (y (h f))))"

text \<open>Lines 22 to 42: the rows of \<^verbatim>\<open>sort_features_A\<close> before they are flattened.\<close>

definition cluster_rows_A :: "store \<Rightarrow> ref list \<Rightarrow> int \<Rightarrow> ref list list" where
  "cluster_rows_A h features tol =
     (case rows_loop_A h tol (sorted_by_y_desc h features) [] [] None of
        (rows, current_row) \<Rightarrow>
          if current_row \<noteq> [] then rows @ [sorted_by_x h current_row] else rows)"

definition sort_features_A :: "store \<Rightarrow> ref list \<Rightarrow> int \<Rightarrow> ref list" where
  "sort_features_A h features tol = concat (cluster_rows_A h features tol)"

section \<open>Python's float arithmetic\<close>

text \<open>
  The division of line 100 yields a float, and lines 101 and 114 mix ints and floats. A
  Python float is an IEEE 754 binary64 number: a finite value is \<open>m * 2 ^ e\<close> with
  \<open>\<bar>m\<bar> < 2 ^ 53\<close> and \<open>- 1074 \<le> e \<le> 971\<close>, and there are two infinities. Every operation
  returns the exact result rounded to the nearest finite value, ties to the even \<open>m\<close>, and
  an exact result that rounds to \<open>2 ^ 1024\<close> or beyond is an overflow. A finite value is
  kept as the pair \<open>(m, e)\<close>, so that all arithmetic is on integers. The sign of a zero is
  not kept: no comparison of the program tells \<^verbatim>\<open>-0.0\<close> from \<^verbatim>\<open>0.0\<close>. There is no
  \<^verbatim>\<open>nan\<close>: it needs two infinite operands or a product of zero and infinity, and the
  program has no such operation.
\<close>

type_synonym dyadic = "int \<times> int"

datatype pyfloat = Finite dyadic | PosInf | NegInf

text \<open>The fraction \<open>n / d\<close> divided by \<open>2 ^ e\<close>, as a fraction again.\<close>

definition scaled :: "int \<Rightarrow> int \<Rightarrow> int \<Rightarrow> int \<times> int" where
  "scaled n d e = (if 0 \<le> e then (n, d * 2 ^ nat e) else (n * 2 ^ nat (- e), d))"

text \<open>The integer \<open>l\<close> with \<open>2 ^ l \<le> n / d < 2 ^ (l + 1)\<close>, for positive \<open>n\<close> and \<open>d\<close>.\<close>

definition floor_log2 :: "int \<Rightarrow> int \<Rightarrow> int" where
  "floor_log2 n d =
     (let k = bitlen n - bitlen d in
      case scaled n d k of (p, q) \<Rightarrow> if q \<le> p then k else k - 1)"

text \<open>The integer nearest to \<open>p / q\<close>, the even one of two equally near.\<close>

definition round_half_even :: "int \<Rightarrow> int \<Rightarrow> int" where
  "round_half_even p q =
     (let f = p div q; r = p mod q in
      if 2 * r < q then f else if q < 2 * r then f + 1 else if even f then f else f + 1)"

text \<open>
  Rounding of the exact value \<open>n / d\<close> to binary64, for \<open>d \<noteq> 0\<close>. The exponent \<open>e\<close> leaves
  53 bits to \<open>m\<close>, or is \<open>- 1074\<close> for a subnormal result; \<open>m * 2 ^ e\<close> reaches \<open>2 ^ 1024\<close>
  exactly when the bit length of \<open>m\<close> plus \<open>e\<close> exceeds 1024.
\<close>

definition to_double :: "int \<Rightarrow> int \<Rightarrow> pyfloat" where
  "to_double n d =
     (if n = 0 then Finite (0, 0)
      else
        (let e = max (floor_log2 \<bar>n\<bar> \<bar>d\<bar> - 52) (- 1074);
             m = (case scaled \<bar>n\<bar> \<bar>d\<bar> e of (p, q) \<Rightarrow> round_half_even p q) in
         if 1024 < bitlen m + e then (if 0 < sgn n * sgn d then PosInf else NegInf)
         else Finite (sgn n * sgn d * m, e)))"

text \<open>Rounding of the exact value \<open>m * 2 ^ e\<close>.\<close>

definition round_dyadic :: "int \<Rightarrow> int \<Rightarrow> pyfloat" where
  "round_dyadic m e = (if 0 \<le> e then to_double (m * 2 ^ nat e) 1 else to_double m (2 ^ nat (- e)))"

text \<open>
  \<^verbatim>\<open>float(n)\<close>, the conversion that \<^verbatim>\<open>+\<close>, \<^verbatim>\<open>-\<close> and \<^verbatim>\<open>*\<close> apply to an int operand when
  the other operand is a float. It raises \<^verbatim>\<open>OverflowError\<close> for an int too large.
\<close>

definition int_to_float :: "int \<Rightarrow> py_error + dyadic" where
  "int_to_float n =
     (case to_double n 1 of Finite r \<Rightarrow> Inr r | PosInf \<Rightarrow> Inl OverflowError
      | NegInf \<Rightarrow> Inl OverflowError)"

text \<open>
  \<^verbatim>\<open>a / b\<close> on two ints: \<^verbatim>\<open>ZeroDivisionError\<close> for a zero divisor, else the correctly
  rounded quotient, or \<^verbatim>\<open>OverflowError\<close> when the quotient is too large for a float.
\<close>

definition int_truediv :: "int \<Rightarrow> int \<Rightarrow> py_error + dyadic" where
  "int_truediv a b =
     (if b = 0 then Inl ZeroDivisionError
      else (case to_double a b of Finite r \<Rightarrow> Inr r | PosInf \<Rightarrow> Inl OverflowError
            | NegInf \<Rightarrow> Inl OverflowError))"

text \<open>
  \<^verbatim>\<open>*\<close>, \<^verbatim>\<open>+\<close> and \<^verbatim>\<open>-\<close> on floats raise nothing: an overflow is an infinity. The
  left operand is always finite in the program (it is a converted int), and so is the
  right operand of the product (it is \<^verbatim>\<open>step\<close>).
\<close>

definition float_mul :: "dyadic \<Rightarrow> dyadic \<Rightarrow> pyfloat" where
  "float_mul a b = round_dyadic (fst a * fst b) (snd a + snd b)"

fun float_add :: "dyadic \<Rightarrow> pyfloat \<Rightarrow> pyfloat" where
  "float_add a (Finite b) =
     (let e = min (snd a) (snd b) in
      round_dyadic (fst a * 2 ^ nat (snd a - e) + fst b * 2 ^ nat (snd b - e)) e)"
| "float_add a PosInf = PosInf"
| "float_add a NegInf = NegInf"

fun float_sub :: "dyadic \<Rightarrow> pyfloat \<Rightarrow> pyfloat" where
  "float_sub a (Finite b) =
     (let e = min (snd a) (snd b) in
      round_dyadic (fst a * 2 ^ nat (snd a - e) - fst b * 2 ^ nat (snd b - e)) e)"
| "float_sub a PosInf = NegInf"
| "float_sub a NegInf = PosInf"

text \<open>
  \<^verbatim>\<open>abs(v) <= t\<close> for a float \<^verbatim>\<open>v\<close> and an int \<^verbatim>\<open>t\<close>: Python compares a float with an
  int by their exact values.
\<close>

fun float_abs_le :: "pyfloat \<Rightarrow> int \<Rightarrow> bool" where
  "float_abs_le (Finite r) t =
     (if 0 \<le> snd r then \<bar>fst r\<bar> * 2 ^ nat (snd r) \<le> t else \<bar>fst r\<bar> \<le> t * 2 ^ nat (- snd r))"
| "float_abs_le PosInf t = False"
| "float_abs_le NegInf t = False"

section \<open>\<^verbatim>\<open>sort_features_B\<close>\<close>

text \<open>Step 2, lines 69 to 77: the same grouping, but the rows are not sorted by \<^verbatim>\<open>x\<close> yet.\<close>

fun rows_loop_B ::
  "store \<Rightarrow> int \<Rightarrow> ref list \<Rightarrow> ref list list \<Rightarrow> ref list \<Rightarrow> int option
    \<Rightarrow> ref list list \<times> ref list" where
  "rows_loop_B h tol_y [] rows current_row current_y = (rows, current_row)"
| "rows_loop_B h tol_y (f # fs) rows current_row current_y =
     (if (case current_y of None \<Rightarrow> True | Some cy \<Rightarrow> \<bar>y (h f) - cy\<bar> \<le> tol_y)
      then rows_loop_B h tol_y fs rows (current_row @ [f])
             (case current_y of None \<Rightarrow> Some (y (h f)) | Some cy \<Rightarrow> Some cy)
      else rows_loop_B h tol_y fs (rows @ [current_row]) [f] (Some (y (h f))))"

definition cluster_rows_B :: "store \<Rightarrow> ref list \<Rightarrow> int \<Rightarrow> ref list list" where
  "cluster_rows_B h features tol_y =
     (case rows_loop_B h tol_y (sorted_by_y_desc h features) [] [] None of
        (rows, current_row) \<Rightarrow> if current_row \<noteq> [] then rows @ [current_row] else rows)"

text \<open>
  Step 3, lines 82 to 86. \<^verbatim>\<open>rows[:expected_rows]\<close> with a negative bound counts from
  the end of the list, and \<^verbatim>\<open>len(rows) > expected_rows\<close> holds for every negative
  \<^verbatim>\<open>expected_rows\<close>.
\<close>

definition py_slice_to :: "'a list \<Rightarrow> int \<Rightarrow> 'a list" where
  "py_slice_to xs n = (if n < 0 then take (nat (int (length xs) + n)) xs else take (nat n) xs)"

definition normalize_rows :: "ref list list \<Rightarrow> int \<Rightarrow> ref list list" where
  "normalize_rows rows expected_rows =
     (if int (length rows) > expected_rows then py_slice_to rows expected_rows
      else if int (length rows) < expected_rows
      then rows @ replicate (nat (expected_rows - int (length rows))) []
      else rows)"

text \<open>
  An expected position is the int \<^verbatim>\<open>min_x\<close> (line 98) or a float (line 101).
\<close>

datatype pynum = PyInt int | PyFloat pyfloat

text \<open>
  Line 101, one element: \<^verbatim>\<open>min_x + i * step\<close>. \<^verbatim>\<open>i\<close> is converted for the product and
  \<^verbatim>\<open>min_x\<close> for the sum.
\<close>

definition position :: "int \<Rightarrow> dyadic \<Rightarrow> nat \<Rightarrow> py_error + pyfloat" where
  "position min_x step i =
     (case int_to_float (int i) of
        Inl e \<Rightarrow> Inl e
      | Inr fi \<Rightarrow>
          (case int_to_float min_x of
             Inl e \<Rightarrow> Inl e
           | Inr fm \<Rightarrow> Inr (float_add fm (float_mul fi step))))"

text \<open>Line 101, the list comprehension over \<^verbatim>\<open>range(expected_cols)\<close>.\<close>

fun positions :: "int \<Rightarrow> dyadic \<Rightarrow> nat list \<Rightarrow> py_error + pynum option list" where
  "positions min_x step [] = Inr []"
| "positions min_x step (i # is) =
     (case position min_x step i of
        Inl e \<Rightarrow> Inl e
      | Inr p \<Rightarrow>
          (case positions min_x step is of
             Inl e \<Rightarrow> Inl e
           | Inr ps \<Rightarrow> Inr (Some (PyFloat p) # ps)))"

text \<open>
  Lines 93 to 103: the expected positions of a row. \<^verbatim>\<open>[v] * n\<close> and \<^verbatim>\<open>range(n)\<close> are
  empty for \<^verbatim>\<open>n \<le> 0\<close>.
\<close>

definition expected_positions ::
  "store \<Rightarrow> ref list \<Rightarrow> int \<Rightarrow> py_error + pynum option list" where
  "expected_positions h row_sorted expected_cols =
     (if row_sorted \<noteq> [] then
        (let min_x = x (h (hd row_sorted)); max_x = x (h (last row_sorted)) in
         if length row_sorted = 1 then Inr (replicate (nat expected_cols) (Some (PyInt min_x)))
         else
           (case int_truediv (max_x - min_x) (expected_cols - 1) of
              Inl e \<Rightarrow> Inl e
            | Inr step \<Rightarrow> positions min_x step [0 ..< nat expected_cols]))
      else Inr (replicate (nat expected_cols) None))"

text \<open>
  Line 114, \<^verbatim>\<open>abs(f.x - exp_x) <= tol_x\<close>: exact on ints; with a float \<^verbatim>\<open>exp_x\<close> the int
  \<^verbatim>\<open>f.x\<close> is converted first.
\<close>

definition within_tol :: "int \<Rightarrow> pynum \<Rightarrow> int \<Rightarrow> py_error + bool" where
  "within_tol fx exp_x tol_x =
     (case exp_x of
        PyInt p \<Rightarrow> Inr (\<bar>fx - p\<bar> \<le> tol_x)
      | PyFloat v \<Rightarrow>
          (case int_to_float fx of
             Inl e \<Rightarrow> Inl e
           | Inr r \<Rightarrow> Inr (float_abs_le (float_sub r v) tol_x)))"

text \<open>Lines 111 to 117: the first Feature of the row not yet used and within \<^verbatim>\<open>tol_x\<close>.\<close>

fun find_feature ::
  "store \<Rightarrow> int \<Rightarrow> ref set \<Rightarrow> pynum \<Rightarrow> ref list \<Rightarrow> py_error + ref option" where
  "find_feature h tol_x used exp_x [] = Inr None"
| "find_feature h tol_x used exp_x (f # fs) =
     (if f \<in> used then find_feature h tol_x used exp_x fs
      else
        (case within_tol (x (h f)) exp_x tol_x of
           Inl e \<Rightarrow> Inl e
         | Inr b \<Rightarrow> if b then Inr (Some f) else find_feature h tol_x used exp_x fs))"

text \<open>Lines 108 to 118: one cell per expected position; \<^verbatim>\<open>used\<close> grows with each match.\<close>

fun match_positions ::
  "store \<Rightarrow> int \<Rightarrow> ref list \<Rightarrow> ref set \<Rightarrow> pynum option list
    \<Rightarrow> py_error + ref option list" where
  "match_positions h tol_x row_sorted used [] = Inr []"
| "match_positions h tol_x row_sorted used (None # ps) =
     (case match_positions h tol_x row_sorted used ps of
        Inl e \<Rightarrow> Inl e
      | Inr cells \<Rightarrow> Inr (None # cells))"
| "match_positions h tol_x row_sorted used (Some exp_x # ps) =
     (case find_feature h tol_x used exp_x row_sorted of
        Inl e \<Rightarrow> Inl e
      | Inr found \<Rightarrow>
          (case match_positions h tol_x row_sorted
                  (case found of None \<Rightarrow> used | Some f \<Rightarrow> insert f used) ps of
             Inl e \<Rightarrow> Inl e
           | Inr cells \<Rightarrow> Inr (found # cells)))"

text \<open>Lines 91 to 121: one row of the grid, padded with \<^verbatim>\<open>None\<close> up to \<^verbatim>\<open>expected_cols\<close>.\<close>

definition align_row :: "store \<Rightarrow> int \<Rightarrow> int \<Rightarrow> ref list \<Rightarrow> py_error + ref option list" where
  "align_row h expected_cols tol_x row =
     (let row_sorted = sorted_by_x h row in
      case expected_positions h row_sorted expected_cols of
        Inl e \<Rightarrow> Inl e
      | Inr ps \<Rightarrow>
          (case match_positions h tol_x row_sorted {} ps of
             Inl e \<Rightarrow> Inl e
           | Inr new_row \<Rightarrow>
               Inr (new_row @ replicate (nat (expected_cols - int (length new_row))) None)))"

text \<open>Lines 89 to 122: the loop over the rows; the first exception ends the call.\<close>

fun align_rows :: "store \<Rightarrow> int \<Rightarrow> int \<Rightarrow> ref list list \<Rightarrow> py_error + ref option list list" where
  "align_rows h expected_cols tol_x [] = Inr []"
| "align_rows h expected_cols tol_x (row # rows) =
     (case align_row h expected_cols tol_x row of
        Inl e \<Rightarrow> Inl e
      | Inr new_row \<Rightarrow>
          (case align_rows h expected_cols tol_x rows of
             Inl e \<Rightarrow> Inl e
           | Inr grid \<Rightarrow> Inr (new_row # grid)))"

definition sort_features_B ::
  "store \<Rightarrow> ref list \<Rightarrow> int \<Rightarrow> int \<Rightarrow> int \<Rightarrow> int \<Rightarrow> py_error + ref option list" where
  "sort_features_B h features expected_rows expected_cols tol_y tol_x =
     (case align_rows h expected_cols tol_x
             (normalize_rows (cluster_rows_B h features tol_y) expected_rows) of
        Inl e \<Rightarrow> Inl e
      | Inr grid \<Rightarrow> Inr (concat grid))"

section \<open>The fixtures\<close>

text \<open>A literal list of Features: the object at address \<open>i\<close> is the \<open>i\<close>-th of the list.\<close>

definition store_of :: "Feature list \<Rightarrow> store" where
  "store_of objs = (\<lambda>r. objs ! r)"

definition refs_of :: "Feature list \<Rightarrow> ref list" where
  "refs_of objs = [0 ..< length objs]"

definition times_1 :: "Feature list" where
  "times_1 =
    [\<lparr>text = ''10:47 PM'', x = 331, y = 3808\<rparr>,
     \<lparr>text = ''10:13 PM'', x = 306, y = 2788\<rparr>,
     \<lparr>text = ''10:29 PM'', x = 1734, y = 3816\<rparr>,
     \<lparr>text = ''10:08 PM'', x = 1718, y = 2780\<rparr>,
     \<lparr>text = ''9:51 PM'', x = 290, y = 1759\<rparr>,
     \<lparr>text = ''9:48 PM'', x = 1710, y = 1743\<rparr>,
     \<lparr>text = ''10:26 PM'', x = 3171, y = 3818\<rparr>,
     \<lparr>text = ''10:02 PM'', x = 3163, y = 2772\<rparr>,
     \<lparr>text = ''9:46 PM'', x = 3154, y = 1733\<rparr>,
     \<lparr>text = ''10:23 PM'', x = 4599, y = 3793\<rparr>,
     \<lparr>text = ''10:01 PM'', x = 4615, y = 2762\<rparr>,
     \<lparr>text = ''9:43 PM'', x = 4607, y = 1725\<rparr>]"

definition numbers_1 :: "Feature list" where
  "numbers_1 =
    [\<lparr>text = ''1'', x = 132, y = 3736\<rparr>,
     \<lparr>text = ''5'', x = 107, y = 2723\<rparr>,
     \<lparr>text = ''2'', x = 1519, y = 3744\<rparr>,
     \<lparr>text = ''6'', x = 1511, y = 2714\<rparr>,
     \<lparr>text = ''9'', x = 83, y = 1685\<rparr>,
     \<lparr>text = ''10'', x = 1494, y = 1668\<rparr>,
     \<lparr>text = ''3'', x = 2963, y = 3752\<rparr>,
     \<lparr>text = ''7'', x = 2947, y = 2698\<rparr>,
     \<lparr>text = ''11'', x = 2939, y = 1668\<rparr>,
     \<lparr>text = ''8'', x = 4400, y = 2698\<rparr>,
     \<lparr>text = ''12'', x = 4400, y = 1643\<rparr>]"

section \<open>Conservation\<close>

lemma mset_sorted_by_y_desc: "mset (sorted_by_y_desc h fs) = mset fs"
  by (simp add: sorted_by_y_desc_def)

lemma mset_sorted_by_x: "mset (sorted_by_x h fs) = mset fs"
  by (simp add: sorted_by_x_def)

lemma rows_loop_A_mset:
  "rows_loop_A h tol fs rows cur cy = (rows', cur') \<Longrightarrow>
   mset (concat rows') + mset cur' = mset (concat rows) + mset cur + mset fs"
proof (induction fs arbitrary: rows cur cy)
  case Nil
  then show ?case by simp
next
  case (Cons f fs)
  then show ?case
    by (auto simp: mset_sorted_by_x split: option.splits if_splits)
qed

lemma mset_cluster_rows_A: "mset (concat (cluster_rows_A h fs tol)) = mset fs"
proof -
  obtain rows' cur' where
    r: "rows_loop_A h tol (sorted_by_y_desc h fs) [] [] None = (rows', cur')"
    by (cases "rows_loop_A h tol (sorted_by_y_desc h fs) [] [] None")
  from rows_loop_A_mset [OF r]
  have "mset (concat rows') + mset cur' = mset fs"
    by (simp add: mset_sorted_by_y_desc)
  then show ?thesis
    by (auto simp: cluster_rows_A_def r mset_sorted_by_x)
qed

text \<open>
  C4. For every input list and every tolerance, \<^verbatim>\<open>sort_features_A\<close> returns a permutation
  of its input: every object of the input occurs in the output as often as in the input,
  the lengths agree, and the empty list yields the empty list.
\<close>

theorem sort_features_A_permutation:
  "mset (sort_features_A h features tol) = mset features
   \<and> length (sort_features_A h features tol) = length features
   \<and> sort_features_A h [] tol = []"
proof -
  have m: "mset (sort_features_A h features tol) = mset features"
    by (simp add: sort_features_A_def mset_cluster_rows_A)
  have l: "length (sort_features_A h features tol) = length features"
    using m by (metis size_mset)
  have e: "sort_features_A h [] tol = []"
    by (simp add: sort_features_A_def cluster_rows_A_def sorted_by_y_desc_def)
  from m l e show ?thesis by simp
qed

section \<open>The two groupings agree\<close>

lemma rows_loop_A_B:
  "rows_loop_A h tol fs (map (sorted_by_x h) rows) cur cy =
   map_prod (map (sorted_by_x h)) id (rows_loop_B h tol fs rows cur cy)"
proof (induction fs arbitrary: rows cur cy)
  case Nil
  show ?case by simp
next
  case (Cons f fs)
  have split: "map (sorted_by_x h) rows @ [sorted_by_x h cur] = map (sorted_by_x h) (rows @ [cur])"
    by simp
  show ?case
    by (simp only: rows_loop_A.simps rows_loop_B.simps split Cons.IH split: option.split if_split)
       simp
qed

lemma cluster_rows_A_B:
  "cluster_rows_A h fs tol = map (sorted_by_x h) (cluster_rows_B h fs tol)"
  using rows_loop_A_B [of h tol "sorted_by_y_desc h fs" "[]" "[]" None]
  by (simp add: cluster_rows_A_def cluster_rows_B_def split: prod.splits)

section \<open>Rows are sorted and not empty\<close>

lemma rows_loop_B_nonempty:
  "rows_loop_B h tol fs rows cur cy = (rows', cur') \<Longrightarrow>
   [] \<notin> set rows \<Longrightarrow> (cy \<noteq> None \<longrightarrow> cur \<noteq> []) \<Longrightarrow> [] \<notin> set rows'"
  by (induction fs arbitrary: rows cur cy) (auto split: option.splits if_splits)

lemma cluster_rows_B_nonempty: "[] \<notin> set (cluster_rows_B h fs tol)"
proof -
  obtain rows' cur' where
    r: "rows_loop_B h tol (sorted_by_y_desc h fs) [] [] None = (rows', cur')"
    by (cases "rows_loop_B h tol (sorted_by_y_desc h fs) [] [] None")
  from rows_loop_B_nonempty [OF r] have "[] \<notin> set rows'" by simp
  then show ?thesis by (simp add: cluster_rows_B_def r)
qed

lemma sorted_sorted_by_x: "sorted (map (\<lambda>f. x (h f)) (sorted_by_x h row))"
  by (simp add: sorted_by_x_def)

lemma sorted_by_x_Nil_iff: "sorted_by_x h row = [] \<longleftrightarrow> row = []"
  by (metis mset_sorted_by_x mset_zero_iff)

text \<open>
  C9. \<^verbatim>\<open>sort_features_A\<close> returns its clustered rows one after the other, and in each of
  these rows the \<^verbatim>\<open>x\<close> coordinates are non-decreasing from left to right; no row is empty.
\<close>

theorem rows_left_to_right:
  "sort_features_A h features tol = concat (cluster_rows_A h features tol)
   \<and> (\<forall>row \<in> set (cluster_rows_A h features tol).
        sorted (map (\<lambda>f. x (h f)) row) \<and> row \<noteq> [])"
proof (intro conjI ballI)
  show "sort_features_A h features tol = concat (cluster_rows_A h features tol)"
    by (simp add: sort_features_A_def)
next
  fix row assume "row \<in> set (cluster_rows_A h features tol)"
  then obtain r where r: "r \<in> set (cluster_rows_B h features tol)" and row: "row = sorted_by_x h r"
    by (auto simp: cluster_rows_A_B)
  from r have "r \<noteq> []" using cluster_rows_B_nonempty [of h features tol] by auto
  then show "sorted (map (\<lambda>f. x (h f)) row)" and "row \<noteq> []"
    by (simp_all add: row sorted_sorted_by_x sorted_by_x_Nil_iff)
qed

theorem rows_left_to_right_witness:
  "sort_features_A (store_of times_1) (refs_of times_1) 100 =
     [0, 2, 6, 9] @ [1, 3, 7, 10] @ [4, 5, 8, 11]
   \<and> sorted (map (\<lambda>f. x (store_of times_1 f)) [0, 2, 6, 9])
   \<and> sorted (map (\<lambda>f. x (store_of times_1 f)) [1, 3, 7, 10])
   \<and> sorted (map (\<lambda>f. x (store_of times_1 f)) [4, 5, 8, 11])"
proof -
  have e: "cluster_rows_A (store_of times_1) (refs_of times_1) 100 =
      [[0, 2, 6, 9], [1, 3, 7, 10], [4, 5, 8, 11]]"
    by code_simp
  show ?thesis
    using rows_left_to_right [of "store_of times_1" "refs_of times_1" 100]
    unfolding e by simp
qed

section \<open>The float arithmetic stays finite on moderate values\<close>

lemma scaled_value:
  assumes "0 < d" and "scaled n d e = (p, q)"
  shows "0 < q"
    and "real_of_int p / real_of_int q = (real_of_int n / real_of_int d) / 2 powi e"
  using assms by (auto simp: scaled_def power_int_def field_simps split: if_splits)

lemma bitlen_real_bounds:
  assumes "0 < n"
  shows "2 powi (bitlen n - 1) \<le> real_of_int n" and "real_of_int n < 2 powi (bitlen n)"
proof -
  from assms have b: "1 \<le> bitlen n" by (simp add: bitlen_alt_def)
  from bitlen_bounds [OF assms]
  have l: "2 ^ nat (bitlen n - 1) \<le> n" and u: "n < 2 ^ nat (bitlen n)" by simp_all
  from l have "real_of_int (2 ^ nat (bitlen n - 1)) \<le> real_of_int n" by (rule of_int_le_iff [THEN iffD2])
  with b show "2 powi (bitlen n - 1) \<le> real_of_int n" by (simp add: power_int_def)
  from u have "real_of_int n < real_of_int (2 ^ nat (bitlen n))" by (rule of_int_less_iff [THEN iffD2])
  with b show "real_of_int n < 2 powi (bitlen n)" by (simp add: power_int_def)
qed

lemma floor_log2_upper:
  assumes n: "0 < n" and d: "0 < d"
  shows "real_of_int n / real_of_int d < 2 powi (floor_log2 n d + 1)"
    and "floor_log2 n d \<le> bitlen n - 1"
proof -
  define k where "k = bitlen n - bitlen d"
  obtain p q where s: "scaled n d k = (p, q)" by (cases "scaled n d k")
  from scaled_value [OF d s]
  have q: "0 < q" and v: "real_of_int p / real_of_int q = (real_of_int n / real_of_int d) / 2 powi k"
    by simp_all
  have fl: "floor_log2 n d = (if q \<le> p then k else k - 1)"
    by (simp add: floor_log2_def k_def [symmetric] s)
  from d have bd: "1 \<le> bitlen d" by (simp add: bitlen_alt_def)
  then show "floor_log2 n d \<le> bitlen n - 1" by (simp add: fl k_def)
  show "real_of_int n / real_of_int d < 2 powi (floor_log2 n d + 1)"
  proof (cases "q \<le> p")
    case True
    have "real_of_int n / real_of_int d < 2 powi (bitlen n) / 2 powi (bitlen d - 1)"
      using bitlen_real_bounds(2) [OF n] bitlen_real_bounds(1) [OF d] n d
      by (intro frac_less) simp_all
    also have "\<dots> = 2 powi (bitlen n - (bitlen d - 1))"
      by (rule power_int_diff [symmetric]) simp
    also have "bitlen n - (bitlen d - 1) = k + 1"
      by (simp add: k_def)
    finally show ?thesis using True by (simp add: fl)
  next
    case False
    with q have "real_of_int p / real_of_int q < 1" by simp
    then have "(real_of_int n / real_of_int d) / 2 powi k < 1" by (simp only: v)
    moreover have pos: "0 < (2::real) powi k" by simp
    ultimately have "real_of_int n / real_of_int d < 1 * 2 powi k"
      by (simp only: pos_divide_less_eq [OF pos])
    then have "real_of_int n / real_of_int d < 2 powi k" by simp
    with False show ?thesis by (simp add: fl)
  qed
qed

lemma round_half_even_le:
  assumes q: "0 < q" and b: "real_of_int p / real_of_int q < real_of_int B"
  shows "round_half_even p q \<le> B"
proof -
  from q b have "real_of_int p < real_of_int (B * q)" by (simp add: field_simps)
  then have "p < B * q" by (simp only: of_int_less_iff)
  have "p div q < B"
  proof (rule ccontr)
    assume "\<not> p div q < B"
    then have "B \<le> p div q" by simp
    with q have "B * q \<le> (p div q) * q" by (simp add: mult_right_mono)
    also have "\<dots> \<le> p"
      using pos_mod_sign [OF q, of p] by (simp add: minus_mod_eq_div_mult [symmetric])
    finally show False using \<open>p < B * q\<close> by simp
  qed
  then show ?thesis by (simp add: round_half_even_def Let_def)
qed

lemma to_double_finite:
  assumes d: "d \<noteq> 0" and n: "\<bar>n\<bar> < 2 ^ 1001"
  shows "\<exists>r. to_double n d = Finite r"
proof (cases "n = 0")
  case True
  then show ?thesis by (simp add: to_double_def)
next
  case False
  define a where "a = \<bar>n\<bar>"
  define b where "b = \<bar>d\<bar>"
  define e where "e = max (floor_log2 a b - 52) (- 1074)"
  from False d have a: "0 < a" and b: "0 < b" by (simp_all add: a_def b_def)
  obtain p q where s: "scaled a b e = (p, q)" by (cases "scaled a b e")
  define m where "m = round_half_even p q"
  from n have "bitlen a \<le> 1001" by (simp add: a_def bitlen_le_iff_power)
  with floor_log2_upper(2) [OF a b] have lg: "floor_log2 a b \<le> 1000" by simp
  then have e1: "e \<le> 948" by (simp add: e_def)
  have e2: "floor_log2 a b + 1 - e \<le> 53" by (simp add: e_def)
  from scaled_value [OF b s]
  have q: "0 < q" and v: "real_of_int p / real_of_int q = (real_of_int a / real_of_int b) / 2 powi e"
    by simp_all
  have "real_of_int p / real_of_int q < 2 powi (floor_log2 a b + 1) / 2 powi e"
    unfolding v using floor_log2_upper(1) [OF a b] by (intro divide_strict_right_mono) simp_all
  also have "\<dots> = 2 powi (floor_log2 a b + 1 - e)" by (simp add: power_int_diff)
  also have "\<dots> \<le> 2 powi 53" using e2 by (intro power_int_increasing) simp_all
  finally have "real_of_int p / real_of_int q < real_of_int (2 ^ 53)" by simp
  from round_half_even_le [OF q this] have "m \<le> 2 ^ 53" by (simp add: m_def)
  then have "m < 2 ^ nat 54" by simp
  then have "bitlen m \<le> 54" by (simp only: bitlen_le_iff_power) simp
  with e1 have "\<not> 1024 < bitlen m + e" by simp
  then show ?thesis
    using False by (simp add: to_double_def Let_def a_def [symmetric] b_def [symmetric]
        e_def [symmetric] s m_def [symmetric])
qed

section \<open>The shape of the grid\<close>

lemma length_match_positions:
  "match_positions h tol_x row used ps = Inr cells \<Longrightarrow> length cells = length ps"
  by (induction h tol_x row used ps arbitrary: cells rule: match_positions.induct)
    (auto split: sum.splits)

lemma length_positions: "positions min_x step is = Inr ps \<Longrightarrow> length ps = length is"
  by (induction "is" arbitrary: ps) (auto split: sum.splits)

lemma expected_positions_length:
  "expected_positions h row ec = Inr ps \<Longrightarrow> length ps = nat ec"
  by (auto simp: expected_positions_def Let_def dest: length_positions
      split: if_splits sum.splits)

lemma align_row_length:
  "align_row h ec tol_x row = Inr cells \<Longrightarrow> length cells = nat ec"
  by (auto simp: align_row_def Let_def
      dest!: expected_positions_length length_match_positions split: sum.splits)

lemma align_rows_length:
  "align_rows h ec tol_x rows = Inr grid \<Longrightarrow> length (concat grid) = length rows * nat ec"
proof (induction rows arbitrary: grid)
  case Nil
  then show ?case by simp
next
  case (Cons row rows)
  then show ?case
    by (auto simp: align_row_length split: sum.splits)
qed

lemma length_normalize_rows:
  "length (normalize_rows rows er) =
     (if er < 0 then length rows - nat (- er) else nat er)"
  by (auto simp: normalize_rows_def py_slice_to_def)

text \<open>
  Whenever the call returns, the grid has one cell per row kept and expected column; for
  a non-negative \<^verbatim>\<open>expected_rows\<close> that is \<^verbatim>\<open>expected_rows * expected_cols\<close> cells.
\<close>

lemma sort_features_B_length:
  "sort_features_B h fs er ec tol_y tol_x = Inr grid \<Longrightarrow>
   length grid = length (normalize_rows (cluster_rows_B h fs tol_y) er) * nat ec"
  by (auto simp: sort_features_B_def dest: align_rows_length split: sum.splits)

section \<open>The exceptions\<close>

text \<open>
  The division of line 100 is the only place that raises \<^verbatim>\<open>ZeroDivisionError\<close>, and
  only for one column. Every other exception is an \<^verbatim>\<open>OverflowError\<close> of the float
  arithmetic.
\<close>

lemma int_to_float_error: "int_to_float n = Inl e \<Longrightarrow> e = OverflowError"
  by (auto simp: int_to_float_def split: pyfloat.splits)

lemma int_truediv_error: "int_truediv a b = Inl e \<Longrightarrow> b \<noteq> 0 \<Longrightarrow> e = OverflowError"
  by (auto simp: int_truediv_def split: pyfloat.splits)

lemma position_error: "position min_x step i = Inl e \<Longrightarrow> e = OverflowError"
  by (auto simp: position_def dest: int_to_float_error split: sum.splits)

lemma positions_error: "positions min_x step is = Inl e \<Longrightarrow> e = OverflowError"
  by (induction "is") (auto dest: position_error split: sum.splits)

lemma expected_positions_error:
  "expected_positions h row ec = Inl e \<Longrightarrow> ec \<noteq> 1 \<Longrightarrow> e = OverflowError"
  by (auto simp: expected_positions_def Let_def dest: positions_error int_truediv_error
      split: if_splits sum.splits)

lemma within_tol_error: "within_tol fx exp_x tol_x = Inl e \<Longrightarrow> e = OverflowError"
  by (auto simp: within_tol_def dest: int_to_float_error split: pynum.splits sum.splits)

lemma find_feature_error: "find_feature h tol_x used exp_x row = Inl e \<Longrightarrow> e = OverflowError"
  by (induction row) (auto dest: within_tol_error split: if_splits sum.splits)

lemma match_positions_error:
  "match_positions h tol_x row used ps = Inl e \<Longrightarrow> e = OverflowError"
  by (induction h tol_x row used ps rule: match_positions.induct)
    (auto dest: find_feature_error split: sum.splits)

lemma align_row_error:
  "align_row h ec tol_x row = Inl e \<Longrightarrow> ec \<noteq> 1 \<Longrightarrow> e = OverflowError"
  by (auto simp: align_row_def Let_def dest: expected_positions_error match_positions_error
      split: sum.splits)

lemma align_rows_error:
  "align_rows h ec tol_x rows = Inl e \<Longrightarrow> ec \<noteq> 1 \<Longrightarrow> e = OverflowError"
  by (induction rows) (auto dest: align_row_error split: sum.splits)

lemma sort_features_B_error:
  "sort_features_B h fs er ec tol_y tol_x = Inl e \<Longrightarrow> ec \<noteq> 1 \<Longrightarrow> e = OverflowError"
  by (auto simp: sort_features_B_def dest: align_rows_error split: sum.splits)

text \<open>
  No float operation overflows when the coordinates and \<^verbatim>\<open>expected_cols\<close> are below
  \<open>2 ^ 1000\<close> in magnitude: then the call returns for every \<^verbatim>\<open>expected_cols\<close> other than 1.
\<close>

lemma int_to_float_returns: "\<bar>n\<bar> < 2 ^ 1001 \<Longrightarrow> \<exists>r. int_to_float n = Inr r"
  using to_double_finite [of 1 n] by (auto simp: int_to_float_def)

lemma int_truediv_returns: "b \<noteq> 0 \<Longrightarrow> \<bar>a\<bar> < 2 ^ 1001 \<Longrightarrow> \<exists>r. int_truediv a b = Inr r"
  using to_double_finite [of b a] by (auto simp: int_truediv_def)

lemma position_returns:
  assumes "\<bar>min_x\<bar> < 2 ^ 1000" and "int i < 2 ^ 1000"
  shows "\<exists>p. position min_x step i = Inr p"
proof -
  from assms(1) have "\<bar>min_x\<bar> < 2 ^ 1001" by simp
  from int_to_float_returns [OF this] obtain fm where fm: "int_to_float min_x = Inr fm" ..
  from assms(2) have "\<bar>int i\<bar> < 2 ^ 1001" by simp
  from int_to_float_returns [OF this] obtain fi where fi: "int_to_float (int i) = Inr fi" ..
  show ?thesis by (simp add: position_def fm fi)
qed

lemma positions_returns:
  "\<bar>min_x\<bar> < 2 ^ 1000 \<Longrightarrow> \<forall>i \<in> set is. int i < 2 ^ 1000 \<Longrightarrow>
   \<exists>ps. positions min_x step is = Inr ps"
proof (induction "is")
  case Nil
  show ?case by simp
next
  case (Cons i "is")
  from Cons.prems have "\<bar>min_x\<bar> < 2 ^ 1000" and "int i < 2 ^ 1000" by simp_all
  from position_returns [OF this] obtain p where p: "position min_x step i = Inr p" ..
  from Cons obtain ps where "positions min_x step is = Inr ps" by auto
  with p show ?case by simp
qed

lemma expected_positions_returns:
  assumes ec: "ec \<noteq> 1" "ec < 2 ^ 1000"
    and xs: "\<forall>f \<in> set row. \<bar>x (h f)\<bar> < 2 ^ 1000"
  shows "\<exists>ps. expected_positions h row ec = Inr ps"
proof (cases "row = [] \<or> length row = 1")
  case True
  then show ?thesis by (auto simp: expected_positions_def Let_def)
next
  case False
  then have "hd row \<in> set row" and "last row \<in> set row" by simp_all
  with xs have mn: "\<bar>x (h (hd row))\<bar> < 2 ^ 1000" and mx: "\<bar>x (h (last row))\<bar> < 2 ^ 1000"
    by simp_all
  then have "\<bar>x (h (last row)) - x (h (hd row))\<bar> < 2 ^ 1001" by simp
  with ec obtain step where
    step: "int_truediv (x (h (last row)) - x (h (hd row))) (ec - 1) = Inr step"
    using int_truediv_returns [of "ec - 1" "x (h (last row)) - x (h (hd row))"] by auto
  from ec have "\<forall>i \<in> set [0 ..< nat ec]. int i < 2 ^ 1000" by auto
  from positions_returns [OF mn this]
  obtain ps where "positions (x (h (hd row))) step [0 ..< nat ec] = Inr ps" ..
  with False step show ?thesis by (simp add: expected_positions_def Let_def)
qed

lemma within_tol_returns: "\<bar>fx\<bar> < 2 ^ 1000 \<Longrightarrow> \<exists>b. within_tol fx exp_x tol_x = Inr b"
  using int_to_float_returns [of fx]
  by (auto simp: within_tol_def split: pynum.splits)

lemma find_feature_returns:
  "\<forall>f \<in> set row. \<bar>x (h f)\<bar> < 2 ^ 1000 \<Longrightarrow> \<exists>r. find_feature h tol_x used exp_x row = Inr r"
proof (induction row)
  case Nil
  show ?case by simp
next
  case (Cons f fs)
  then have "\<bar>x (h f)\<bar> < 2 ^ 1000" by simp
  from within_tol_returns [OF this]
  obtain b where "within_tol (x (h f)) exp_x tol_x = Inr b" ..
  with Cons show ?case by auto
qed

lemma match_positions_returns:
  "\<forall>f \<in> set row. \<bar>x (h f)\<bar> < 2 ^ 1000 \<Longrightarrow> \<exists>cells. match_positions h tol_x row used ps = Inr cells"
proof (induction h tol_x row used ps rule: match_positions.induct)
  case (1 h tol_x row_sorted used)
  show ?case by simp
next
  case (2 h tol_x row_sorted used ps)
  then show ?case by auto
next
  case (3 h tol_x row_sorted used exp_x ps)
  from find_feature_returns [OF "3.prems"]
  obtain found where f: "find_feature h tol_x used exp_x row_sorted = Inr found" ..
  from "3.IH" [OF f "3.prems"]
  obtain cells where "match_positions h tol_x row_sorted
      (case found of None \<Rightarrow> used | Some f \<Rightarrow> insert f used) ps = Inr cells" ..
  with f show ?case by simp
qed

lemma set_sorted_by_x: "set (sorted_by_x h row) = set row"
  by (simp add: sorted_by_x_def)

lemma align_row_returns:
  assumes "ec \<noteq> 1" "ec < 2 ^ 1000" and xs: "\<forall>f \<in> set row. \<bar>x (h f)\<bar> < 2 ^ 1000"
  shows "\<exists>cells. align_row h ec tol_x row = Inr cells"
proof -
  from xs have xs': "\<forall>f \<in> set (sorted_by_x h row). \<bar>x (h f)\<bar> < 2 ^ 1000"
    by (simp add: set_sorted_by_x)
  from expected_positions_returns [OF assms(1,2) xs']
  obtain ps where ps: "expected_positions h (sorted_by_x h row) ec = Inr ps" ..
  from match_positions_returns [OF xs']
  obtain cells where "match_positions h tol_x (sorted_by_x h row) {} ps = Inr cells" ..
  with ps show ?thesis by (simp add: align_row_def Let_def)
qed

lemma align_rows_returns:
  "ec \<noteq> 1 \<Longrightarrow> ec < 2 ^ 1000 \<Longrightarrow> \<forall>f \<in> set (concat rows). \<bar>x (h f)\<bar> < 2 ^ 1000 \<Longrightarrow>
   \<exists>grid. align_rows h ec tol_x rows = Inr grid"
proof (induction rows)
  case Nil
  show ?case by simp
next
  case (Cons row rows)
  from Cons.prems have "\<forall>f \<in> set row. \<bar>x (h f)\<bar> < 2 ^ 1000" by simp
  from align_row_returns [OF Cons.prems(1,2) this]
  obtain cells where c: "align_row h ec tol_x row = Inr cells" ..
  from Cons obtain grid where "align_rows h ec tol_x rows = Inr grid" by auto
  with c show ?case by simp
qed

lemma mset_cluster_rows_B: "mset (concat (cluster_rows_B h fs tol)) = mset fs"
proof -
  have "mset (concat (map (sorted_by_x h) rows)) = mset (concat rows)" for rows
    by (induction rows) (simp_all add: mset_sorted_by_x)
  from this [of "cluster_rows_B h fs tol"] show ?thesis
    using mset_cluster_rows_A [of h fs tol] by (simp add: cluster_rows_A_B)
qed

lemma set_cluster_rows_B: "set (concat (cluster_rows_B h fs tol)) = set fs"
  using mset_cluster_rows_B [of h fs tol] by (rule mset_eq_setD)

lemma set_normalize_rows: "set (concat (normalize_rows rows er)) \<subseteq> set (concat rows)"
  by (auto simp: normalize_rows_def py_slice_to_def dest: in_set_takeD)

lemma sort_features_B_returns:
  assumes "ec \<noteq> 1" "ec < 2 ^ 1000" and xs: "\<forall>f \<in> set fs. \<bar>x (h f)\<bar> < 2 ^ 1000"
  shows "\<exists>grid. sort_features_B h fs er ec tol_y tol_x = Inr grid"
proof -
  have "\<forall>f \<in> set (concat (normalize_rows (cluster_rows_B h fs tol_y) er)). \<bar>x (h f)\<bar> < 2 ^ 1000"
  proof
    fix f assume "f \<in> set (concat (normalize_rows (cluster_rows_B h fs tol_y) er))"
    with set_normalize_rows [of "cluster_rows_B h fs tol_y" er]
    have "f \<in> set (concat (cluster_rows_B h fs tol_y))" by blast
    then have "f \<in> set fs" by (simp only: set_cluster_rows_B)
    with xs show "\<bar>x (h f)\<bar> < 2 ^ 1000" by blast
  qed
  from align_rows_returns [OF assms(1,2) this]
  obtain grid where "align_rows h ec tol_x
      (normalize_rows (cluster_rows_B h fs tol_y) er) = Inr grid" ..
  then show ?thesis by (simp add: sort_features_B_def)
qed

text \<open>
  C2 (the code departs from the claim). With \<^verbatim>\<open>expected_cols = 1\<close> and a row of two or
  more Features, line 100 divides by \<^verbatim>\<open>expected_cols - 1 = 0\<close>: aligning the eleven
  Features of \<^verbatim>\<open>numbers_1\<close> to a grid of 3 rows and 1 column raises
  \<^verbatim>\<open>ZeroDivisionError\<close> and returns no sequence of 3 elements.
\<close>

theorem single_column_no_grid:
  "sort_features_B (store_of numbers_1) (refs_of numbers_1) 3 1 100 20 = Inl ZeroDivisionError"
  by code_simp

text \<open>
  C3 (the code departs from the claim). Two Features in one row and a grid of one row and
  one column, all four parameters positive: the call raises \<^verbatim>\<open>ZeroDivisionError\<close>.
\<close>

theorem single_column_raises:
  "sort_features_B
     (store_of [\<lparr>text = ''a'', x = 0, y = 0\<rparr>, \<lparr>text = ''b'', x = 10, y = 0\<rparr>]) [0, 1]
     1 1 100 20 = Inl ZeroDivisionError"
  by code_simp

section \<open>No validation of the arguments\<close>

lemma normalize_rows_negative:
  "er < 0 \<Longrightarrow> normalize_rows rows er = take (length rows - nat (- er)) rows"
proof -
  assume er: "er < 0"
  then have "nat (int (length rows) + er) = length rows - nat (- er)" by linarith
  with er show ?thesis by (simp add: normalize_rows_def py_slice_to_def)
qed

text \<open>
  C7, as the code has it. \<^verbatim>\<open>sort_features_B\<close> checks none of its arguments and has no
  signal for an invalid one. With \<^verbatim>\<open>expected_rows = 0\<close> it returns the empty sequence.
  With a non-positive \<^verbatim>\<open>expected_cols\<close> it returns the empty sequence as well, unless the
  division of line 100 overflows the float range (\<^verbatim>\<open>OverflowError\<close>), which coordinates
  below \<open>2 ^ 1000\<close> in magnitude exclude. With a negative \<^verbatim>\<open>expected_rows\<close> the slice of
  line 83 drops the last \<^verbatim>\<open>-expected_rows\<close> clustered rows, and the call is the alignment
  of the rows that are left, in their order.
\<close>

theorem no_argument_validation:
  "(expected_rows = 0 \<longrightarrow>
      sort_features_B h features expected_rows expected_cols tol_y tol_x = Inr [])
   \<and> (expected_cols \<le> 0 \<longrightarrow>
      sort_features_B h features expected_rows expected_cols tol_y tol_x = Inr []
      \<or> sort_features_B h features expected_rows expected_cols tol_y tol_x = Inl OverflowError)
   \<and> (expected_cols \<le> 0 \<and> (\<forall>f \<in> set features. \<bar>x (h f)\<bar> < 2 ^ 1000) \<longrightarrow>
      sort_features_B h features expected_rows expected_cols tol_y tol_x = Inr [])
   \<and> (expected_rows < 0 \<longrightarrow>
      sort_features_B h features expected_rows expected_cols tol_y tol_x =
        map_sum id concat
          (align_rows h expected_cols tol_x
             (take (length (cluster_rows_B h features tol_y) - nat (- expected_rows))
                (cluster_rows_B h features tol_y))))"
proof (intro conjI impI)
  assume "expected_rows = 0"
  then show "sort_features_B h features expected_rows expected_cols tol_y tol_x = Inr []"
    by (simp add: sort_features_B_def normalize_rows_def py_slice_to_def)
next
  assume ec: "expected_cols \<le> 0"
  show "sort_features_B h features expected_rows expected_cols tol_y tol_x = Inr []
      \<or> sort_features_B h features expected_rows expected_cols tol_y tol_x = Inl OverflowError"
  proof (cases "sort_features_B h features expected_rows expected_cols tol_y tol_x")
    case (Inl e)
    from sort_features_B_error [OF Inl] ec have "e = OverflowError" by simp
    with Inl show ?thesis by simp
  next
    case (Inr grid)
    from sort_features_B_length [OF Inr] ec have "grid = []" by simp
    with Inr show ?thesis by simp
  qed
next
  assume a: "expected_cols \<le> 0 \<and> (\<forall>f \<in> set features. \<bar>x (h f)\<bar> < 2 ^ 1000)"
  then have "expected_cols \<noteq> 1" and "expected_cols < 2 ^ 1000"
    and "\<forall>f \<in> set features. \<bar>x (h f)\<bar> < 2 ^ 1000"
    by simp_all
  from sort_features_B_returns [OF this]
  obtain grid where
    g: "sort_features_B h features expected_rows expected_cols tol_y tol_x = Inr grid" ..
  from sort_features_B_length [OF g] a have "grid = []" by simp
  with g show "sort_features_B h features expected_rows expected_cols tol_y tol_x = Inr []"
    by simp
next
  assume "expected_rows < 0"
  from normalize_rows_negative [OF this]
  show "sort_features_B h features expected_rows expected_cols tol_y tol_x =
        map_sum id concat
          (align_rows h expected_cols tol_x
             (take (length (cluster_rows_B h features tol_y) - nat (- expected_rows))
                (cluster_rows_B h features tol_y)))"
    by (simp add: sort_features_B_def split: sum.split)
qed

theorem no_argument_validation_witness:
  "sort_features_B (store_of numbers_1) (refs_of numbers_1) 0 0 100 20 = Inr []
   \<and> sort_features_B (store_of numbers_1) (refs_of numbers_1) (- 1) 4 100 20 =
       map_sum id concat
         (align_rows (store_of numbers_1) 4 20
            (take 2 (cluster_rows_B (store_of numbers_1) (refs_of numbers_1) 100)))
   \<and> length (cluster_rows_B (store_of numbers_1) (refs_of numbers_1) 100) = 3"
proof -
  have b: "\<forall>f \<in> set (refs_of numbers_1). \<bar>x (store_of numbers_1 f)\<bar> < 2 ^ 1000"
    by code_simp
  have l: "length (cluster_rows_B (store_of numbers_1) (refs_of numbers_1) 100) = 3"
    by code_simp
  from no_argument_validation [of 0 "store_of numbers_1" "refs_of numbers_1" 0 100 20] b
  have one: "sort_features_B (store_of numbers_1) (refs_of numbers_1) 0 0 100 20 = Inr []"
    by blast
  from no_argument_validation [of "- 1" "store_of numbers_1" "refs_of numbers_1" 4 100 20]
  have two: "sort_features_B (store_of numbers_1) (refs_of numbers_1) (- 1) 4 100 20 =
       map_sum id concat
         (align_rows (store_of numbers_1) 4 20
            (take 2 (cluster_rows_B (store_of numbers_1) (refs_of numbers_1) 100)))"
    by (simp add: l)
  from one two l show ?thesis by simp
qed

text \<open>
  The claim as stated fails: zero rows, zero columns and a negative row count each
  return a grid, not an error.
\<close>

theorem no_argument_validation_counterexample:
  "sort_features_B (store_of numbers_1) (refs_of numbers_1) 0 4 100 20 = Inr []
   \<and> sort_features_B (store_of numbers_1) (refs_of numbers_1) 3 0 100 20 = Inr []
   \<and> sort_features_B (store_of numbers_1) (refs_of numbers_1) (- 1) 4 100 20 =
       Inr [Some 0, None, None, Some 6, Some 1, None, None, Some 9]"
  by code_simp

section \<open>The fixtures, evaluated\<close>

text \<open>
  C6, as the code has it. With the tolerance 100, \<^verbatim>\<open>sort_features_A\<close> groups the twelve
  Features of \<^verbatim>\<open>times_1\<close> into 3 rows of 4 columns each: the row at y = 3808, 3816,
  3818, 3793 first (x ascending: 331, 1734, 3171, 4599), then the row around y = 2780,
  then the row around y = 1725; rows by descending \<^verbatim>\<open>y\<close>, each row by ascending \<^verbatim>\<open>x\<close>.
\<close>

theorem times_1_reading_order:
  "map (map (\<lambda>f. (x (store_of times_1 f), y (store_of times_1 f))))
       (cluster_rows_A (store_of times_1) (refs_of times_1) 100) =
     [[(331, 3808), (1734, 3816), (3171, 3818), (4599, 3793)],
      [(306, 2788), (1718, 2780), (3163, 2772), (4615, 2762)],
      [(290, 1759), (1710, 1743), (3154, 1733), (4607, 1725)]]
   \<and> map (\<lambda>f. text (store_of times_1 f))
        (sort_features_A (store_of times_1) (refs_of times_1) 100) =
     [''10:47 PM'', ''10:29 PM'', ''10:26 PM'', ''10:23 PM'',
      ''10:13 PM'', ''10:08 PM'', ''10:02 PM'', ''10:01 PM'',
      ''9:51 PM'', ''9:48 PM'', ''9:46 PM'', ''9:43 PM'']"
  by code_simp

text \<open>The claim as stated fails: the rows are not 4 rows of 3 columns.\<close>

theorem times_1_reading_order_counterexample:
  "\<not> (length (cluster_rows_A (store_of times_1) (refs_of times_1) 100) = 4
      \<and> list_all (\<lambda>row. length row = 3)
          (cluster_rows_A (store_of times_1) (refs_of times_1) 100))"
  by code_simp

text \<open>
  C5, as the code has it. Aligning \<^verbatim>\<open>numbers_1\<close> to 3 rows and 4 columns with the default
  tolerances leaves six cells empty, columns 1 and 2 of each row: the expected positions
  are interpolated between the leftmost and the rightmost Feature of a row, and no inner
  Feature lies within \<^verbatim>\<open>tol_x = 20\<close> of one. Columns 0 and 3 hold the leftmost and the
  rightmost Feature of the row. The nearest miss is 22 against the tolerance 20, so the
  rounding of the float \<^verbatim>\<open>step\<close> does not change a cell.
\<close>

theorem numbers_1_grid:
  "map_sum id (map (map_option (\<lambda>f. text (store_of numbers_1 f))))
     (sort_features_B (store_of numbers_1) (refs_of numbers_1) 3 4 100 20) =
   Inr [Some ''1'', None, None, Some ''3'',
        Some ''5'', None, None, Some ''8'',
        Some ''9'', None, None, Some ''12'']"
  by code_simp

text \<open>
  The claim as stated fails: the grid does not have exactly one empty cell, and the cell
  of row 1, column 3 is not empty.
\<close>

theorem numbers_1_grid_counterexample:
  "\<not> (\<exists>grid. sort_features_B (store_of numbers_1) (refs_of numbers_1) 3 4 100 20 = Inr grid
         \<and> count_list grid None = 1 \<and> grid ! (1 * 4 + 3) = None)"
proof -
  have e: "sort_features_B (store_of numbers_1) (refs_of numbers_1) 3 4 100 20 =
      Inr [Some 0, None, None, Some 6, Some 1, None, None, Some 9, Some 4, None, None, Some 10]"
    by code_simp
  show ?thesis unfolding e by simp
qed

section \<open>The anchor of a row\<close>

lemma mset_pair_cases:
  "mset fs = {#a, b#} \<Longrightarrow> fs = [a, b] \<or> fs = [b, a]"
proof -
  assume m: "mset fs = {#a, b#}"
  then have "length fs = 2" by (metis size_mset size_add_mset size_empty numeral_2_eq_2)
  then obtain p q where fs: "fs = [p, q]"
    by (metis (no_types) length_0_conv length_Suc_conv numeral_2_eq_2)
  from m show ?thesis unfolding fs by (auto simp: add_eq_conv_diff split: if_splits)
qed

lemma mset_triple_cases:
  "mset fs = {#a, b, c#} \<Longrightarrow>
   fs \<in> {[a, b, c], [a, c, b], [b, a, c], [b, c, a], [c, a, b], [c, b, a]}"
proof -
  assume m: "mset fs = {#a, b, c#}"
  then have "length fs = 3" by (metis size_mset size_add_mset size_empty numeral_3_eq_3)
  then obtain p q r where fs: "fs = [p, q, r]"
    by (metis (no_types) length_0_conv length_Suc_conv numeral_3_eq_3)
  from m show ?thesis unfolding fs by (auto simp: add_eq_conv_diff split: if_splits)
qed

lemma chain_rows_B:
  assumes "y (h a) = 0" "y (h b) = 90" "y (h c) = 180" "mset features = {#a, b, c#}"
  shows "cluster_rows_B h features 100 = [[c, b], [a]]"
  using mset_triple_cases [OF assms(4)] assms(1-3)
  by (auto simp: cluster_rows_B_def sorted_by_y_desc_def)

lemma pair_rows_B:
  assumes "y (h p) = 0" "y (h q) = 150" "mset pair = {#p, q#}"
  shows "cluster_rows_B h pair 100 = [[q], [p]]"
  using mset_pair_cases [OF assms(3)] assms(1-2)
  by (auto simp: cluster_rows_B_def sorted_by_y_desc_def)

text \<open>
  C1, as the code has it. With the tolerance 100, three Features at y = 0, 90 and 180,
  in any input order, are clustered into two rows: the Features at 180 and 90 form the
  first row and the Feature at 0 the second, because every Feature is compared with the
  first Feature of the current row (180), not with its predecessor. Two Features at
  y = 0 and y = 150 are split into two rows. Both groupings, that of \<^verbatim>\<open>sort_features_A\<close>
  and that of \<^verbatim>\<open>sort_features_B\<close>, behave so.
\<close>

theorem anchor_rows:
  assumes "y (h a) = 0" "y (h b) = 90" "y (h c) = 180" "mset features = {#a, b, c#}"
    and "y (h p) = 0" "y (h q) = 150" "mset pair = {#p, q#}"
  shows "map mset (cluster_rows_A h features 100) = [{#b, c#}, {#a#}]
       \<and> cluster_rows_B h features 100 = [[c, b], [a]]
       \<and> cluster_rows_A h pair 100 = [[q], [p]]
       \<and> cluster_rows_B h pair 100 = [[q], [p]]"
  using chain_rows_B [OF assms(1-4)] pair_rows_B [OF assms(5-7)]
  by (simp add: cluster_rows_A_B mset_sorted_by_x sorted_by_x_def)

theorem anchor_rows_witness:
  "map mset (cluster_rows_A
       (store_of [\<lparr>text = ''a'', x = 5, y = 0\<rparr>, \<lparr>text = ''b'', x = 3, y = 90\<rparr>,
                  \<lparr>text = ''c'', x = 7, y = 180\<rparr>, \<lparr>text = ''p'', x = 1, y = 0\<rparr>,
                  \<lparr>text = ''q'', x = 2, y = 150\<rparr>]) [1, 2, 0] 100) = [{#1, 2#}, {#0#}]
   \<and> cluster_rows_B
       (store_of [\<lparr>text = ''a'', x = 5, y = 0\<rparr>, \<lparr>text = ''b'', x = 3, y = 90\<rparr>,
                  \<lparr>text = ''c'', x = 7, y = 180\<rparr>, \<lparr>text = ''p'', x = 1, y = 0\<rparr>,
                  \<lparr>text = ''q'', x = 2, y = 150\<rparr>]) [3, 4] 100 = [[4], [3]]"
proof -
  let ?h = "store_of [\<lparr>text = ''a'', x = 5, y = 0\<rparr>, \<lparr>text = ''b'', x = 3, y = 90\<rparr>,
                  \<lparr>text = ''c'', x = 7, y = 180\<rparr>, \<lparr>text = ''p'', x = 1, y = 0\<rparr>,
                  \<lparr>text = ''q'', x = 2, y = 150\<rparr>]"
  have ys: "y (?h 0) = 0" "y (?h 1) = 90" "y (?h 2) = 180" "y (?h 3) = 0" "y (?h 4) = 150"
    by (simp_all add: store_of_def)
  have m: "mset [1, 2, 0::nat] = {#0, 1, 2#}" "mset [3, 4::nat] = {#3, 4#}"
    by simp_all
  show ?thesis
    using anchor_rows [OF ys(1) ys(2) ys(3) m(1) ys(4) ys(5) m(2)] by simp
qed

text \<open>The claim as stated fails: the chain 0, 90, 180 is not one row.\<close>

theorem anchor_rows_counterexample:
  "cluster_rows_A
     (store_of [\<lparr>text = ''a'', x = 0, y = 0\<rparr>, \<lparr>text = ''b'', x = 0, y = 90\<rparr>,
                \<lparr>text = ''c'', x = 0, y = 180\<rparr>]) [0, 1, 2] 100 = [[2, 1], [0]]
   \<and> cluster_rows_B
     (store_of [\<lparr>text = ''a'', x = 0, y = 0\<rparr>, \<lparr>text = ''b'', x = 0, y = 90\<rparr>,
                \<lparr>text = ''c'', x = 0, y = 180\<rparr>]) [0, 1, 2] 100 = [[2, 1], [0]]"
  by code_simp

section \<open>Features near the top of the input share the first row\<close>

lemma rows_loop_B_join:
  "\<forall>f \<in> set ps. \<bar>y (h f) - cy\<bar> \<le> tol \<Longrightarrow>
   rows_loop_B h tol (ps @ qs) rows cur (Some cy) = rows_loop_B h tol qs rows (cur @ ps) (Some cy)"
  by (induction ps arbitrary: cur) auto

lemma rows_loop_B_prefix:
  "rows_loop_B h tol fs rows cur cy = (rows', cur') \<Longrightarrow> \<exists>more. rows' = rows @ more"
proof (induction fs arbitrary: rows cur cy)
  case Nil
  then show ?case by simp
next
  case (Cons f fs)
  show ?case
  proof (cases "case cy of None \<Rightarrow> True | Some c \<Rightarrow> \<bar>y (h f) - c\<bar> \<le> tol")
    case True
    with Cons.prems show ?thesis using Cons.IH by simp
  next
    case False
    with Cons.prems
    have "rows_loop_B h tol fs (rows @ [cur]) [f] (Some (y (h f))) = (rows', cur')" by simp
    from Cons.IH [OF this] show ?thesis by auto
  qed
qed

lemma rows_loop_B_keeps_row:
  "rows_loop_B h tol fs rows cur cy = (rows', cur') \<Longrightarrow> cur \<noteq> [] \<Longrightarrow>
   \<exists>row \<in> set (if cur' \<noteq> [] then rows' @ [cur'] else rows'). set cur \<subseteq> set row"
proof (induction fs arbitrary: rows cur cy)
  case Nil
  then show ?case by auto
next
  case (Cons f fs)
  show ?case
  proof (cases "case cy of None \<Rightarrow> True | Some c \<Rightarrow> \<bar>y (h f) - c\<bar> \<le> tol")
    case True
    with Cons.prems
    have "rows_loop_B h tol fs rows (cur @ [f])
            (case cy of None \<Rightarrow> Some (y (h f)) | Some c \<Rightarrow> Some c) = (rows', cur')"
      by simp
    from Cons.IH [OF this]
    obtain row where "row \<in> set (if cur' \<noteq> [] then rows' @ [cur'] else rows')"
      and "set (cur @ [f]) \<subseteq> set row" by auto
    then show ?thesis by auto
  next
    case False
    with Cons.prems
    have r: "rows_loop_B h tol fs (rows @ [cur]) [f] (Some (y (h f))) = (rows', cur')" by simp
    from rows_loop_B_prefix [OF r] have "cur \<in> set rows'" by auto
    then show ?thesis by auto
  qed
qed

lemma in_takeWhile_sorted:
  "sorted (map k fs) \<Longrightarrow> a \<in> set fs \<Longrightarrow> k a \<le> c \<Longrightarrow> a \<in> set (takeWhile (\<lambda>f. k f \<le> c) fs)"
  by (induction fs) auto

lemma set_sorted_by_y_desc: "set (sorted_by_y_desc h fs) = set fs"
  by (simp add: sorted_by_y_desc_def)

lemma sorted_sorted_by_y_desc: "sorted (map (\<lambda>f. - y (h f)) (sorted_by_y_desc h fs))"
  by (simp add: sorted_by_y_desc_def)

lemma first_row_B:
  assumes a: "a \<in> set features" and b: "b \<in> set features"
    and top: "\<forall>f \<in> set features. y (h f) \<le> y (h a) + tol \<and> y (h f) \<le> y (h b) + tol"
  shows "\<exists>row \<in> set (cluster_rows_B h features tol). a \<in> set row \<and> b \<in> set row"
proof -
  define k where "k = (\<lambda>f. - y (h f))"
  define m where "m = min (y (h a)) (y (h b))"
  from a have "sorted_by_y_desc h features \<noteq> []"
    using set_sorted_by_y_desc [of h features] by fastforce
  then obtain s rest where S: "sorted_by_y_desc h features = s # rest"
    by (cases "sorted_by_y_desc h features") auto
  have srt: "sorted (map k (s # rest))"
    using sorted_sorted_by_y_desc [of h features] by (simp add: S k_def)
  have mem: "set (s # rest) = set features"
    using set_sorted_by_y_desc [of h features] by (simp add: S)
  define ps where "ps = takeWhile (\<lambda>f. k f \<le> - m) rest"
  define qs where "qs = dropWhile (\<lambda>f. k f \<le> - m) rest"
  have rest: "rest = ps @ qs" by (simp add: ps_def qs_def)
  have s_top: "y (h s) \<le> m + tol"
    using top mem by (auto simp: m_def min_def)
  have close: "\<forall>f \<in> set ps. \<bar>y (h f) - y (h s)\<bar> \<le> tol"
  proof
    fix f assume f: "f \<in> set ps"
    then have "k f \<le> - m" unfolding ps_def by (auto dest: set_takeWhileD)
    moreover from f have "f \<in> set rest" unfolding ps_def by (auto dest: set_takeWhileD)
    with srt have "k s \<le> k f" by auto
    ultimately show "\<bar>y (h f) - y (h s)\<bar> \<le> tol"
      using s_top by (simp add: k_def)
  qed
  have inrow: "c \<in> set (s # ps)" if c: "c \<in> set features" and mc: "m \<le> y (h c)" for c
  proof (cases "c = s")
    case True
    then show ?thesis by simp
  next
    case False
    with c mem have "c \<in> set rest" by auto
    moreover from srt have "sorted (map k rest)" by simp
    moreover from mc have "k c \<le> - m" by (simp add: k_def)
    ultimately have "c \<in> set ps" unfolding ps_def by (rule_tac in_takeWhile_sorted)
    then show ?thesis by simp
  qed
  have ab: "a \<in> set (s # ps)" "b \<in> set (s # ps)"
    using inrow [OF a] inrow [OF b] by (simp_all add: m_def)
  obtain rows' cur' where
    r: "rows_loop_B h tol qs [] ([s] @ ps) (Some (y (h s))) = (rows', cur')"
    by (cases "rows_loop_B h tol qs [] ([s] @ ps) (Some (y (h s)))")
  have "rows_loop_B h tol (sorted_by_y_desc h features) [] [] None = (rows', cur')"
    using rows_loop_B_join [OF close, of qs "[]" "[s]"] r by (simp add: S rest)
  then have final: "cluster_rows_B h features tol = (if cur' \<noteq> [] then rows' @ [cur'] else rows')"
    by (simp add: cluster_rows_B_def)
  from rows_loop_B_keeps_row [OF r]
  obtain row where row: "row \<in> set (if cur' \<noteq> [] then rows' @ [cur'] else rows')"
    and sub: "set ([s] @ ps) \<subseteq> set row" by blast
  from row have "row \<in> set (cluster_rows_B h features tol)"
    by (simp only: final)
  moreover from sub ab have "a \<in> set row \<and> b \<in> set row" by auto
  ultimately show ?thesis by blast
qed

text \<open>
  C8, as the code has it. Two Features of the input whose \<^verbatim>\<open>y\<close> is at most \<^verbatim>\<open>tol\<close> below
  every \<^verbatim>\<open>y\<close> of the input (so at most \<^verbatim>\<open>tol\<close> below the largest one, the anchor of the
  first row) are placed in the same row, whatever their order in the input. An input of
  just two Features whose \<^verbatim>\<open>y\<close> differ by at most \<^verbatim>\<open>tol\<close> is the special case.
\<close>

theorem same_row_near_top:
  assumes "a \<in> set features" and "b \<in> set features"
    and "\<forall>f \<in> set features. y (h f) \<le> y (h a) + tol \<and> y (h f) \<le> y (h b) + tol"
  shows "\<exists>row \<in> set (cluster_rows_A h features tol). a \<in> set row \<and> b \<in> set row"
proof -
  from first_row_B [OF assms]
  obtain row where "row \<in> set (cluster_rows_B h features tol)" "a \<in> set row" "b \<in> set row"
    by auto
  then have "sorted_by_x h row \<in> set (cluster_rows_A h features tol)"
    and "a \<in> set (sorted_by_x h row)" and "b \<in> set (sorted_by_x h row)"
    by (simp_all add: cluster_rows_A_B set_sorted_by_x)
  then show ?thesis by blast
qed

theorem same_row_near_top_witness:
  "(\<exists>row \<in> set (cluster_rows_A
       (store_of [\<lparr>text = ''a'', x = 7, y = 200\<rparr>, \<lparr>text = ''b'', x = 3, y = 150\<rparr>,
                  \<lparr>text = ''c'', x = 5, y = 90\<rparr>]) [2, 0, 1] 100).
      0 \<in> set row \<and> 1 \<in> set row)
   \<and> (\<exists>row \<in> set (cluster_rows_A
       (store_of [\<lparr>text = ''a'', x = 7, y = 200\<rparr>, \<lparr>text = ''b'', x = 3, y = 150\<rparr>,
                  \<lparr>text = ''c'', x = 5, y = 90\<rparr>]) [2, 1] 100).
      1 \<in> set row \<and> 2 \<in> set row)"
proof -
  let ?h = "store_of [\<lparr>text = ''a'', x = 7, y = 200\<rparr>, \<lparr>text = ''b'', x = 3, y = 150\<rparr>,
                  \<lparr>text = ''c'', x = 5, y = 90\<rparr>]"
  have one: "\<exists>row \<in> set (cluster_rows_A ?h [2, 0, 1] 100). 0 \<in> set row \<and> 1 \<in> set row"
    by (rule same_row_near_top) (simp_all add: store_of_def)
  have two: "\<exists>row \<in> set (cluster_rows_A ?h [2, 1] 100). 1 \<in> set row \<and> 2 \<in> set row"
    by (rule same_row_near_top) (simp_all add: store_of_def)
  from one two show ?thesis by simp
qed

text \<open>
  The claim as stated fails: with the tolerance 100 and Features at y = 200, 150 and 90,
  the Features at 150 and 90 differ by 60 and land in different rows, since 90 is
  compared with the anchor 200.
\<close>

theorem same_row_counterexample:
  "\<bar>y (store_of [\<lparr>text = ''a'', x = 7, y = 200\<rparr>, \<lparr>text = ''b'', x = 3, y = 150\<rparr>,
                 \<lparr>text = ''c'', x = 5, y = 90\<rparr>] 1)
    - y (store_of [\<lparr>text = ''a'', x = 7, y = 200\<rparr>, \<lparr>text = ''b'', x = 3, y = 150\<rparr>,
                 \<lparr>text = ''c'', x = 5, y = 90\<rparr>] 2)\<bar> \<le> 100
   \<and> cluster_rows_A
       (store_of [\<lparr>text = ''a'', x = 7, y = 200\<rparr>, \<lparr>text = ''b'', x = 3, y = 150\<rparr>,
                  \<lparr>text = ''c'', x = 5, y = 90\<rparr>]) [0, 1, 2] 100 = [[1, 0], [2]]
   \<and> \<not> (\<exists>row \<in> set (cluster_rows_A
       (store_of [\<lparr>text = ''a'', x = 7, y = 200\<rparr>, \<lparr>text = ''b'', x = 3, y = 150\<rparr>,
                  \<lparr>text = ''c'', x = 5, y = 90\<rparr>]) [0, 1, 2] 100).
      1 \<in> set row \<and> 2 \<in> set row)"
  by code_simp

section \<open>The cells of the grid come from the input, each at most once\<close>

text \<open>A Feature found for a position is one of the row, and was not used before.\<close>

lemma find_feature_found:
  "find_feature h tol_x used exp_x row = Inr (Some f) \<Longrightarrow> f \<in> set row \<and> f \<notin> used"
  by (induction row) (auto split: if_splits sum.splits)

lemma match_positions_cells:
  "match_positions h tol_x row used ps = Inr cells \<Longrightarrow>
   (\<forall>f. Some f \<in> set cells \<longrightarrow> f \<in> set row \<and> f \<notin> used)
   \<and> (\<forall>f. count_list cells (Some f) \<le> 1)"
proof (induction h tol_x row used ps arbitrary: cells rule: match_positions.induct)
  case (1 h tol_x row_sorted used)
  then show ?case by simp
next
  case (2 h tol_x row_sorted used ps)
  then show ?case by (auto split: sum.splits)
next
  case (3 h tol_x row_sorted used exp_x ps)
  from "3.prems" obtain found rest where
    f: "find_feature h tol_x used exp_x row_sorted = Inr found"
    and r: "match_positions h tol_x row_sorted
              (case found of None \<Rightarrow> used | Some f \<Rightarrow> insert f used) ps = Inr rest"
    and c: "cells = found # rest"
    by (auto split: sum.splits)
  from "3.IH" [OF f r]
  have ih: "\<forall>g. Some g \<in> set rest \<longrightarrow>
        g \<in> set row_sorted \<and> g \<notin> (case found of None \<Rightarrow> used | Some f \<Rightarrow> insert f used)"
    and cnt: "\<forall>g. count_list rest (Some g) \<le> 1"
    by simp_all
  show ?case
  proof (cases found)
    case None
    with ih cnt c show ?thesis by auto
  next
    case (Some f')
    with f have f': "f' \<in> set row_sorted \<and> f' \<notin> used" by (simp add: find_feature_found)
    from ih Some have "Some f' \<notin> set rest" by auto
    then have "count_list rest (Some f') = 0" by (simp add: count_list_0_iff)
    with ih cnt c Some f' show ?thesis by auto
  qed
qed

lemma align_row_cells:
  assumes "align_row h ec tol_x row = Inr cells"
  shows "count_list cells (Some f) \<le> (if f \<in> set row then 1 else 0)"
proof -
  from assms obtain ps new_row where
    m: "match_positions h tol_x (sorted_by_x h row) {} ps = Inr new_row"
    and c: "cells = new_row @ replicate (nat (ec - int (length new_row))) None"
    by (auto simp: align_row_def Let_def split: sum.splits)
  have "count_list (replicate n None) (Some f) = 0" for n :: nat
    by (simp add: count_list_0_iff)
  then have e: "count_list cells (Some f) = count_list new_row (Some f)"
    by (simp add: c)
  from match_positions_cells [OF m]
  have mem: "Some f \<in> set new_row \<longrightarrow> f \<in> set row" and one: "count_list new_row (Some f) \<le> 1"
    by (simp_all add: set_sorted_by_x)
  show ?thesis
  proof (cases "f \<in> set row")
    case True
    with one e show ?thesis by simp
  next
    case False
    with mem have "Some f \<notin> set new_row" by auto
    then have "count_list new_row (Some f) = 0" by (simp add: count_list_0_iff)
    with e False show ?thesis by simp
  qed
qed

text \<open>A Feature fills at most as many cells as there are rows that hold it.\<close>

lemma align_rows_cells:
  "align_rows h ec tol_x rows = Inr grid \<Longrightarrow>
   count_list (concat grid) (Some f) \<le> length (filter (\<lambda>row. f \<in> set row) rows)"
proof (induction rows arbitrary: grid)
  case Nil
  then show ?case by simp
next
  case (Cons row rows)
  from Cons.prems obtain cells rest where
    c: "align_row h ec tol_x row = Inr cells"
    and r: "align_rows h ec tol_x rows = Inr rest"
    and g: "grid = cells # rest"
    by (auto split: sum.splits)
  from align_row_cells [OF c, of f] Cons.IH [OF r]
  show ?case by (auto simp: g)
qed

lemma filter_normalize_rows:
  "length (filter (\<lambda>row. f \<in> set row) (normalize_rows rows er))
     \<le> length (filter (\<lambda>row. f \<in> set row) rows)"
proof -
  have "length (filter P (take n rows)) \<le> length (filter P rows)" for P and n :: nat
  proof -
    have "length (filter P rows) = length (filter P (take n rows @ drop n rows))" by simp
    also have "\<dots> = length (filter P (take n rows)) + length (filter P (drop n rows))"
      by (simp only: filter_append length_append)
    finally show ?thesis by simp
  qed
  moreover have "filter (\<lambda>row. f \<in> set row) (replicate n []) = []" for n :: nat
    by (induction n) simp_all
  ultimately show ?thesis by (simp add: normalize_rows_def py_slice_to_def)
qed

text \<open>
  With a tolerance that is not negative, every Feature of a closed row lies strictly
  above every Feature of a later row, so no object is in two rows.
\<close>

lemma rows_loop_B_separated:
  assumes "rows_loop_B h tol fs rows cur cy = (rows', cur')"
    and "0 \<le> tol"
    and "sorted (map (\<lambda>f. - y (h f)) fs)"
    and "sorted_wrt (\<lambda>r s. \<forall>a \<in> set r. \<forall>b \<in> set s. y (h b) < y (h a)) (rows @ [cur])"
    and "case cy of None \<Rightarrow> rows = [] \<and> cur = []
         | Some c \<Rightarrow> (\<exists>g \<in> set cur. y (h g) = c) \<and> (\<forall>g \<in> set cur. c - tol \<le> y (h g))
             \<and> (\<forall>b \<in> set fs. y (h b) \<le> c)"
  shows "sorted_wrt (\<lambda>r s. \<forall>a \<in> set r. \<forall>b \<in> set s. y (h b) < y (h a)) (rows' @ [cur'])"
  using assms
proof (induction fs arbitrary: rows cur cy)
  case Nil
  then show ?case by simp
next
  case (Cons f fs)
  let ?R = "\<lambda>r s. \<forall>a \<in> set r. \<forall>b \<in> set s. y (h b) < y (h a)"
  from Cons.prems(3) have srt: "sorted (map (\<lambda>f. - y (h f)) fs)"
    and below: "\<forall>b \<in> set fs. y (h b) \<le> y (h f)" by auto
  show ?case
  proof (cases cy)
    case None
    with Cons.prems(5) have e: "rows = []" "cur = []" by simp_all
    from Cons.prems(1) None e
    have r: "rows_loop_B h tol fs [] ([] @ [f]) (Some (y (h f))) = (rows', cur')" by simp
    show ?thesis
      by (rule Cons.IH [OF r Cons.prems(2) srt]) (use Cons.prems(2) below in auto)
  next
    case (Some c)
    with Cons.prems(5) obtain g where g: "g \<in> set cur" "y (h g) = c"
      and low: "\<forall>g \<in> set cur. c - tol \<le> y (h g)"
      and up: "y (h f) \<le> c" "\<forall>b \<in> set fs. y (h b) \<le> c"
      by auto
    from Cons.prems(4) have w: "sorted_wrt ?R rows" and rc: "\<forall>r \<in> set rows. ?R r cur"
      by (simp_all add: sorted_wrt_append)
    from rc g up have rf: "\<forall>r \<in> set rows. \<forall>a \<in> set r. y (h f) < y (h a)" by fastforce
    show ?thesis
    proof (cases "\<bar>y (h f) - c\<bar> \<le> tol")
      case True
      with Cons.prems(1) Some
      have r: "rows_loop_B h tol fs rows (cur @ [f]) (Some c) = (rows', cur')" by simp
      have 4: "sorted_wrt ?R (rows @ [cur @ [f]])"
        using w rc rf by (auto simp: sorted_wrt_append)
      have 5: "case Some c of None \<Rightarrow> rows = [] \<and> cur @ [f] = []
         | Some c \<Rightarrow> (\<exists>g \<in> set (cur @ [f]). y (h g) = c)
             \<and> (\<forall>g \<in> set (cur @ [f]). c - tol \<le> y (h g)) \<and> (\<forall>b \<in> set fs. y (h b) \<le> c)"
        using g low up True by auto
      show ?thesis by (rule Cons.IH [OF r Cons.prems(2) srt 4 5])
    next
      case False
      with Cons.prems(1) Some
      have r: "rows_loop_B h tol fs (rows @ [cur]) [f] (Some (y (h f))) = (rows', cur')" by simp
      from False up have "y (h f) < c - tol" by simp
      with low have cf: "\<forall>a \<in> set cur. y (h f) < y (h a)" by fastforce
      have 4: "sorted_wrt ?R ((rows @ [cur]) @ [[f]])"
        using Cons.prems(4) rf cf by (auto simp: sorted_wrt_append)
      have 5: "case Some (y (h f)) of None \<Rightarrow> rows @ [cur] = [] \<and> [f] = []
         | Some c \<Rightarrow> (\<exists>g \<in> set [f]. y (h g) = c)
             \<and> (\<forall>g \<in> set [f]. c - tol \<le> y (h g)) \<and> (\<forall>b \<in> set fs. y (h b) \<le> c)"
        using Cons.prems(2) below by auto
      show ?thesis by (rule Cons.IH [OF r Cons.prems(2) srt 4 5])
    qed
  qed
qed

lemma cluster_rows_B_separated:
  assumes "0 \<le> tol"
  shows "sorted_wrt (\<lambda>r s. \<forall>a \<in> set r. \<forall>b \<in> set s. y (h b) < y (h a))
           (cluster_rows_B h fs tol)"
proof -
  obtain rows' cur' where
    r: "rows_loop_B h tol (sorted_by_y_desc h fs) [] [] None = (rows', cur')"
    by (cases "rows_loop_B h tol (sorted_by_y_desc h fs) [] [] None")
  have "sorted_wrt (\<lambda>r s. \<forall>a \<in> set r. \<forall>b \<in> set s. y (h b) < y (h a)) (rows' @ [cur'])"
    by (rule rows_loop_B_separated [OF r assms sorted_sorted_by_y_desc]) simp_all
  then show ?thesis
    by (simp add: cluster_rows_B_def r sorted_wrt_append)
qed

lemma separated_rows_hold_once:
  "sorted_wrt (\<lambda>r s. \<forall>a \<in> set r. \<forall>b \<in> set s. y (h b) < y (h a)) rows \<Longrightarrow>
   length (filter (\<lambda>row. f \<in> set row) rows) \<le> 1"
proof (induction rows)
  case Nil
  show ?case by simp
next
  case (Cons r rows)
  show ?case
  proof (cases "f \<in> set r")
    case True
    with Cons.prems have "\<forall>s \<in> set rows. f \<notin> set s" by fastforce
    then have "filter (\<lambda>row. f \<in> set row) rows = []" by (simp add: filter_empty_conv)
    with True show ?thesis by simp
  next
    case False
    with Cons show ?thesis by simp
  qed
qed

text \<open>Without aliases in the input, the rows are a partition of it.\<close>

lemma rows_hold_at_most_count:
  "length (filter (\<lambda>row. f \<in> set row) rows) \<le> count_list (concat rows) f"
proof (induction rows)
  case Nil
  show ?case by simp
next
  case (Cons r rows)
  have "f \<in> set r \<Longrightarrow> 1 \<le> count_list r f"
    using count_list_0_iff [of r f] by linarith
  with Cons show ?case by auto
qed

lemma distinct_rows_hold_once:
  assumes "distinct fs"
  shows "length (filter (\<lambda>row. f \<in> set row) (cluster_rows_B h fs tol)) \<le> 1"
proof -
  have "count_list (concat (cluster_rows_B h fs tol)) f =
      count (mset (concat (cluster_rows_B h fs tol))) f"
    by (simp only: count_mset)
  also have "\<dots> = count (mset fs) f" by (simp only: mset_cluster_rows_B)
  also from assms have "\<dots> \<le> 1" by (simp add: distinct_count_atmost_1)
  finally show ?thesis
    using rows_hold_at_most_count [of f "cluster_rows_B h fs tol"] by linarith
qed

text \<open>
  C10. When \<^verbatim>\<open>sort_features_B\<close> returns a grid, every cell that is not \<^verbatim>\<open>None\<close> holds a
  Feature of the input list, and no Feature object fills more than one cell. This holds
  for every \<^verbatim>\<open>expected_rows\<close> and \<^verbatim>\<open>expected_cols\<close>, provided the tolerance \<^verbatim>\<open>tol_y\<close> is not
  negative or the input list holds no object twice.
\<close>

theorem grid_cells_from_input:
  assumes "sort_features_B h features expected_rows expected_cols tol_y tol_x = Inr grid"
    and "0 \<le> tol_y \<or> distinct features"
  shows "(\<forall>f. Some f \<in> set grid \<longrightarrow> f \<in> set features)
       \<and> (\<forall>f. count_list grid (Some f) \<le> 1)"
proof (intro conjI allI impI)
  let ?rows = "normalize_rows (cluster_rows_B h features tol_y) expected_rows"
  from assms(1) obtain g where
    a: "align_rows h expected_cols tol_x ?rows = Inr g" and grid: "grid = concat g"
    by (auto simp: sort_features_B_def split: sum.splits)
  have once: "length (filter (\<lambda>row. f \<in> set row) (cluster_rows_B h features tol_y)) \<le> 1" for f
    using assms(2)
  proof
    assume "0 \<le> tol_y"
    from separated_rows_hold_once [OF cluster_rows_B_separated [OF this]] show ?thesis .
  next
    assume "distinct features"
    from distinct_rows_hold_once [OF this] show ?thesis .
  qed
  have cnt: "count_list grid (Some f) \<le> 1" for f
    using align_rows_cells [OF a, of f]
      filter_normalize_rows [of f "cluster_rows_B h features tol_y" expected_rows] once [of f]
    by (simp add: grid)
  show "count_list grid (Some f) \<le> 1" for f by (rule cnt)
  show "f \<in> set features" if "Some f \<in> set grid" for f
  proof -
    from that have "0 < count_list grid (Some f)"
      using count_list_0_iff [of grid "Some f"] by auto
    with align_rows_cells [OF a, of f]
    have "filter (\<lambda>row. f \<in> set row) ?rows \<noteq> []" by (auto simp: grid)
    then obtain row where "row \<in> set ?rows" "f \<in> set row"
      by (auto simp: filter_empty_conv)
    then have "f \<in> set (concat ?rows)" by auto
    with set_normalize_rows [of "cluster_rows_B h features tol_y" expected_rows]
    have "f \<in> set (concat (cluster_rows_B h features tol_y))" by blast
    then show ?thesis by (simp only: set_cluster_rows_B)
  qed
qed

theorem grid_cells_from_input_witness:
  "sort_features_B (store_of numbers_1) (refs_of numbers_1) 3 4 100 20 =
     Inr [Some 0, None, None, Some 6, Some 1, None, None, Some 9, Some 4, None, None, Some 10]
   \<and> list_all (\<lambda>f. f \<in> set (refs_of numbers_1)) [0, 6, 1, 9, 4, 10]
   \<and> list_all (\<lambda>f. count_list
        [Some 0, None, None, Some 6, Some 1, None, None, Some 9, Some 4, None, None,
         Some (10::nat)] (Some f) \<le> 1) [0, 6, 1, 9, 4, 10]"
proof -
  have e: "sort_features_B (store_of numbers_1) (refs_of numbers_1) 3 4 100 20 =
     Inr [Some 0, None, None, Some 6, Some 1, None, None, Some 9, Some 4, None, None, Some 10]"
    by code_simp
  have t: "(\<forall>f. Some f \<in> set [Some 0, None, None, Some 6, Some 1, None, None, Some 9, Some 4,
            None, None, Some (10::nat)] \<longrightarrow> f \<in> set (refs_of numbers_1))
       \<and> (\<forall>f. count_list [Some 0, None, None, Some 6, Some 1, None, None, Some 9, Some 4,
            None, None, Some (10::nat)] (Some f) \<le> 1)"
    by (rule grid_cells_from_input [OF e]) simp
  from t
  have m: "Some f \<in> set [Some 0, None, None, Some 6, Some 1, None, None, Some 9, Some 4,
            None, None, Some (10::nat)] \<Longrightarrow> f \<in> set (refs_of numbers_1)"
    and c: "count_list [Some 0, None, None, Some 6, Some 1, None, None, Some 9, Some 4,
            None, None, Some (10::nat)] (Some f) \<le> 1" for f
    by blast+
  have "list_all (\<lambda>f. f \<in> set (refs_of numbers_1)) [0, 6, 1, 9, 4, 10]"
    unfolding list.pred_inject by (intro conjI m TrueI) simp_all
  moreover have "list_all (\<lambda>f. count_list
        [Some 0, None, None, Some 6, Some 1, None, None, Some 9, Some 4, None, None,
         Some (10::nat)] (Some f) \<le> 1) [0, 6, 1, 9, 4, 10]"
    by (simp only: list.pred_inject c simp_thms)
  ultimately show ?thesis using e by simp
qed

text \<open>
  The hypothesis is needed: with a negative tolerance every Feature opens a row of its
  own, and an object that occurs twice in the input list then fills two cells.
\<close>

lemma aliased_negative_tolerance:
  "sort_features_B (store_of [\<lparr>text = ''a'', x = 0, y = 0\<rparr>]) [0, 0] 2 1 (- 1) 20 =
     Inr [Some 0, Some 0]"
  by code_simp

end
